theory Spec2Isabelle
  imports Complex_Main "HOL-Library.Multiset"
begin

section \<open>Run detector: \<open>_consecutive_ranges\<close> of \<open>analysis.py\<close>\<close>

text \<open>
  \<^verbatim>\<open>idx = np.where(mask)[0]\<close>: the positions of the mask that hold True, ascending.
\<close>

definition where_true :: "bool list \<Rightarrow> nat list" where
  "where_true bs = filter (\<lambda>i. bs ! i) [0..<length bs]"

text \<open>
  The \<^verbatim>\<open>for i in range(1, len(idx))\<close> loop. The first argument is \<^verbatim>\<open>idx[i - 1]\<close>, the
  second the part of \<^verbatim>\<open>idx\<close> from position \<^verbatim>\<open>i\<close> on, the pair holds the lists
  \<^verbatim>\<open>starts\<close> and \<^verbatim>\<open>ends\<close> that the loop appends to.
\<close>

fun ranges_loop :: "nat \<Rightarrow> nat list \<Rightarrow> nat list \<times> nat list \<Rightarrow> nat list \<times> nat list" where
  "ranges_loop prev [] (starts, ends) = (starts, ends)"
| "ranges_loop prev (x # xs) (starts, ends) =
     (if x \<noteq> prev + 1
      then ranges_loop x xs (starts @ [x], ends @ [prev])
      else ranges_loop x xs (starts, ends))"

definition consecutive_ranges :: "bool list \<Rightarrow> (nat \<times> nat) list" where
  "consecutive_ranges bs =
     (if \<not> list_ex (\<lambda>b. b) bs then []
      else
        let idx = where_true bs;
            (starts, ends) = ranges_loop (hd idx) (tl idx) ([hd idx], [])
        in zip starts (ends @ [last idx]))"

text \<open>
  The mask that a list of inclusive ranges covers, over \<open>n\<close> positions: position \<open>i\<close> is
  True exactly when some range holds it.
\<close>

definition covered :: "(nat \<times> nat) list \<Rightarrow> nat \<Rightarrow> bool" where
  "covered rs i = list_ex (\<lambda>(a, b). a \<le> i \<and> i \<le> b) rs"

definition mask_of_ranges :: "nat \<Rightarrow> (nat \<times> nat) list \<Rightarrow> bool list" where
  "mask_of_ranges n rs = map (covered rs) [0..<n]"

text \<open>
  A maximal run of the mask: an inclusive range of True positions that cannot be grown
  on either side.
\<close>

definition maximal_run :: "bool list \<Rightarrow> nat \<times> nat \<Rightarrow> bool" where
  "maximal_run bs r =
     (case r of (a, b) \<Rightarrow>
        a \<le> b \<and> b < length bs \<and> list_all (\<lambda>i. bs ! i) [a..<Suc b]
        \<and> (a = 0 \<or> \<not> bs ! (a - 1))
        \<and> (Suc b = length bs \<or> \<not> bs ! Suc b))"

text \<open>
  The runs of an ascending list of positions, by direct recursion: \<open>grow a b ys\<close> holds
  the run \<open>a..b\<close> open and reads on.
\<close>

fun grow :: "nat \<Rightarrow> nat \<Rightarrow> nat list \<Rightarrow> (nat \<times> nat) list" where
  "grow a b [] = [(a, b)]"
| "grow a b (y # ys) = (if y = Suc b then grow a y ys else (a, b) # grow y y ys)"

text \<open>The positions that an inclusive range holds.\<close>

definition expand :: "nat \<times> nat \<Rightarrow> nat list" where
  "expand r = [fst r..<Suc (snd r)]"

text \<open>
  Two ranges are apart when at least one position lies strictly between the end of the
  first and the start of the second: they neither overlap nor touch.
\<close>

definition apart :: "nat \<times> nat \<Rightarrow> nat \<times> nat \<Rightarrow> bool" where
  "apart r s = (Suc (snd r) < fst s)"

section \<open>Data model\<close>

text \<open>
  A timestamp of the daily index is a calendar day, counted in days from 1970-01-01.
  A value is a number or missing (\<open>None\<close>, the NaN of the frame); numbers are exact
  rationals here, so rounding is not modelled. The frame holds its index and its
  columns by name, and it is well formed when a column is as long as the index;
  \<^verbatim>\<open>data_loader.load_cambridge_data\<close> sorts the index and keeps the first of
  duplicate days before any analysis function sees the frame.
\<close>

type_synonym timestamp = int

type_synonym series = "(timestamp \<times> rat option) list"

type_synonym samples = "(timestamp \<times> rat) list"

record dataframe =
  df_index :: "timestamp list"
  df_columns :: "string \<rightharpoonup> rat option list"

datatype error = KeyError string | LabelKeyError timestamp | ValueError | IndexError

text \<open>\<^verbatim>\<open>df[var]\<close>: the column with the frame's index, or \<^verbatim>\<open>KeyError(var)\<close>.\<close>

definition getitem :: "dataframe \<Rightarrow> string \<Rightarrow> error + series" where
  "getitem df var =
     (case df_columns df var of
        None \<Rightarrow> Inl (KeyError var)
      | Some vs \<Rightarrow> Inr (zip (df_index df) vs))"

text \<open>\<^verbatim>\<open>Series.dropna()\<close>: the entries that hold a number, in order.\<close>

fun dropna :: "series \<Rightarrow> samples" where
  "dropna [] = []"
| "dropna ((t, None) # s) = dropna s"
| "dropna ((t, Some v) # s) = (t, v) # dropna s"

text \<open>\<^verbatim>\<open>Series.fillna(0)\<close>.\<close>

definition fillna0 :: "series \<Rightarrow> samples" where
  "fillna0 s = map (\<lambda>(t, v). (t, case v of None \<Rightarrow> 0 | Some x \<Rightarrow> x)) s"

text \<open>The mean of a list of numbers; of no numbers it is missing.\<close>

definition mean_opt :: "rat list \<Rightarrow> rat option" where
  "mean_opt xs = (if xs = [] then None else Some (sum_list xs / of_nat (length xs)))"

section \<open>Calendar\<close>

text \<open>
  The proleptic Gregorian calendar of the timestamps: the day number of a date and the
  date of a day number, both by the usual era computation (an era is 400 years,
  146097 days, and starts on 1 March).
\<close>

definition days_from_civil :: "int \<Rightarrow> int \<Rightarrow> int \<Rightarrow> int" where
  "days_from_civil y0 m d =
     (let y = (if m \<le> 2 then y0 - 1 else y0);
          era = y div 400;
          yoe = y - era * 400;
          doy = (153 * (if m > 2 then m - 3 else m + 9) + 2) div 5 + d - 1;
          doe = yoe * 365 + yoe div 4 - yoe div 100 + doy
      in era * 146097 + doe - 719468)"

definition civil_from_days :: "int \<Rightarrow> int \<times> int \<times> int" where
  "civil_from_days z0 =
     (let z = z0 + 719468;
          era = z div 146097;
          doe = z - era * 146097;
          yoe = (doe - doe div 1460 + doe div 36524 - doe div 146096) div 365;
          y = yoe + era * 400;
          doy = doe - (365 * yoe + yoe div 4 - yoe div 100);
          mp = (5 * doy + 2) div 153;
          d = doy - (153 * mp + 2) div 5 + 1;
          m = (if mp < 10 then mp + 3 else mp - 9)
      in (if m \<le> 2 then y + 1 else y, m, d))"

definition year_of :: "timestamp \<Rightarrow> int" where
  "year_of t = fst (civil_from_days t)"

definition days_in_month :: "int \<Rightarrow> int \<Rightarrow> int" where
  "days_in_month y m =
     (if m = 2 then (if y mod 4 = 0 \<and> (y mod 100 \<noteq> 0 \<or> y mod 400 = 0) then 29 else 28)
      else if m = 4 \<or> m = 6 \<or> m = 9 \<or> m = 11 then 30 else 31)"

section \<open>Percentile\<close>

text \<open>
  \<^verbatim>\<open>np.nanpercentile(a, q)\<close> on numbers that are not NaN, default (linear) method: \<open>q\<close>
  outside 0..100 is a \<^verbatim>\<open>ValueError\<close>; of no numbers the result is NaN; otherwise the sorted
  numbers are read at the position \<open>q / 100 * (n - 1)\<close>, between two neighbours in
  proportion to its fractional part.
\<close>

definition quantile_linear :: "rat list \<Rightarrow> rat \<Rightarrow> rat" where
  "quantile_linear srt q =
     (let n = length srt;
          pos = q * of_nat (n - 1);
          lo = nat \<lfloor>pos\<rfloor>;
          hi = min (lo + 1) (n - 1);
          frac = pos - of_int \<lfloor>pos\<rfloor>
      in srt ! lo + (srt ! hi - srt ! lo) * frac)"

definition nanpercentile :: "rat list \<Rightarrow> rat \<Rightarrow> error + rat option" where
  "nanpercentile xs q =
     (if q < 0 \<or> 100 < q then Inl ValueError
      else if xs = [] then Inr None
      else Inr (Some (quantile_linear (sort xs) (q / 100))))"

section \<open>\<open>get_monthly_records\<close>\<close>

text \<open>
  \<^verbatim>\<open>idxmax\<close> and \<^verbatim>\<open>idxmin\<close>: the label of the first position that holds the largest (the
  smallest) value. The scan keeps the best entry so far and replaces it only by a
  strictly better one.
\<close>

fun argmax_from :: "timestamp \<times> rat \<Rightarrow> samples \<Rightarrow> timestamp \<times> rat" where
  "argmax_from best [] = best"
| "argmax_from best (x # xs) = (if snd best < snd x then argmax_from x xs else argmax_from best xs)"

fun argmin_from :: "timestamp \<times> rat \<Rightarrow> samples \<Rightarrow> timestamp \<times> rat" where
  "argmin_from best [] = best"
| "argmin_from best (x # xs) = (if snd x < snd best then argmin_from x xs else argmin_from best xs)"

definition idxmax :: "samples \<Rightarrow> error + timestamp" where
  "idxmax s = (case s of [] \<Rightarrow> Inl ValueError | x # xs \<Rightarrow> Inr (fst (argmax_from x xs)))"

definition idxmin :: "samples \<Rightarrow> error + timestamp" where
  "idxmin s = (case s of [] \<Rightarrow> Inl ValueError | x # xs \<Rightarrow> Inr (fst (argmin_from x xs)))"

text \<open>
  \<^verbatim>\<open>series.loc[label]\<close>: the value at the label when one entry carries it, the entries
  that carry it when several do, \<^verbatim>\<open>KeyError\<close> when none does.
\<close>

datatype cell = Scalar rat | SubSeries samples

definition loc :: "samples \<Rightarrow> timestamp \<Rightarrow> error + cell" where
  "loc s l =
     (case filter (\<lambda>(t, v). t = l) s of
        [] \<Rightarrow> Inl (LabelKeyError l)
      | [(t, v)] \<Rightarrow> Inr (Scalar v)
      | ys \<Rightarrow> Inr (SubSeries ys))"

record monthly_record =
  max_value :: cell
  max_date :: timestamp
  min_value :: cell
  min_date :: timestamp

text \<open>The result is \<open>None\<close> for the empty frame that the function returns on no data.\<close>

definition get_monthly_records :: "dataframe \<Rightarrow> string \<Rightarrow> error + monthly_record option" where
  "get_monthly_records df var =
     (if var \<notin> dom (df_columns df) then Inl (KeyError var)
      else case getitem df var of
        Inl e \<Rightarrow> Inl e
      | Inr col \<Rightarrow>
          let series = dropna col in
          if series = [] then Inr None
          else case idxmax series of
            Inl e \<Rightarrow> Inl e
          | Inr max_idx \<Rightarrow>
              (case idxmin series of
                 Inl e \<Rightarrow> Inl e
               | Inr min_idx \<Rightarrow>
                   (case loc series max_idx of
                      Inl e \<Rightarrow> Inl e
                    | Inr mx \<Rightarrow>
                        (case loc series min_idx of
                           Inl e \<Rightarrow> Inl e
                         | Inr mn \<Rightarrow>
                             Inr (Some \<lparr>max_value = mx, max_date = max_idx,
                                        min_value = mn, min_date = min_idx\<rparr>)))))"

section \<open>\<open>rolling_mean\<close>\<close>

text \<open>
  \<^verbatim>\<open>s.rolling(f"{window_days}D").mean()\<close> on samples without missing values. For a
  window of at least one day over an ascending index, the window of position \<open>i\<close> holds
  the positions \<open>j \<le> i\<close> whose timestamp is later than \<open>t\<^sub>i - window_days\<close>, and the
  result at \<open>i\<close> is the mean of their values (one observation is enough). What the
  library does with any other window or index is not fixed by \<open>analysis.py\<close>; it is the
  parameter \<open>other\<close>.
\<close>

definition window_values :: "int \<Rightarrow> samples \<Rightarrow> nat \<Rightarrow> rat list" where
  "window_values w s i =
     map (\<lambda>j. snd (s ! j)) (filter (\<lambda>j. fst (s ! i) - w < fst (s ! j)) [0..<Suc i])"

definition rolling_days_mean ::
  "(int \<Rightarrow> samples \<Rightarrow> error + series) \<Rightarrow> int \<Rightarrow> samples \<Rightarrow> error + series" where
  "rolling_days_mean other w s =
     (if 1 \<le> w \<and> sorted (map fst s)
      then Inr (map (\<lambda>i. (fst (s ! i), mean_opt (window_values w s i))) [0..<length s])
      else other w s)"

definition rolling_mean ::
  "(int \<Rightarrow> samples \<Rightarrow> error + series) \<Rightarrow> dataframe \<Rightarrow> string \<Rightarrow> int \<Rightarrow> error + series" where
  "rolling_mean other df var window_days =
     (case getitem df var of
        Inl e \<Rightarrow> Inl e
      | Inr col \<Rightarrow>
          let s = dropna col in
          if s = [] then Inr []
          else rolling_days_mean other window_days s)"

text \<open>A library that refuses every window and index outside the described ones.\<close>

definition refusing :: "int \<Rightarrow> samples \<Rightarrow> error + series" where
  "refusing w s = Inl ValueError"

section \<open>\<open>estimate_trend\<close>\<close>

text \<open>
  A resampling rule sends a timestamp to the number of its calendar bucket (buckets are
  numbered in calendar order) and a bucket to the year of its label; for the default
  rule \<^verbatim>\<open>"A"\<close> the bucket of a day is its year.
\<close>

record resample_rule =
  bucket_of :: "timestamp \<Rightarrow> int"
  bucket_year :: "int \<Rightarrow> int"

definition annual :: resample_rule where
  "annual = \<lparr>bucket_of = year_of, bucket_year = (\<lambda>b. b)\<rparr>"

text \<open>
  \<^verbatim>\<open>.resample(rule).mean()\<close>: one entry for every bucket from the earliest to the latest
  one that holds a sample, with the mean of the samples in it, missing for a bucket
  that holds none; no entry at all for no samples.
\<close>

definition resample_mean :: "resample_rule \<Rightarrow> samples \<Rightarrow> (int \<times> rat option) list" where
  "resample_mean r s =
     (if s = [] then []
      else
        let bs = map (\<lambda>(t, v). bucket_of r t) s
        in map (\<lambda>b. (b, mean_opt (map snd (filter (\<lambda>(t, v). bucket_of r t = b) s))))
             [Min (set bs)..Max (set bs)])"

text \<open>
  The two regressions are the library's: \<open>polyfit\<close> gives the slope of
  \<^verbatim>\<open>np.polyfit(x, y, 1)\<close>, and \<open>stats\<close> is \<^verbatim>\<open>scipy.stats.linregress\<close> when scipy could be
  imported (it gives slope and p-value), \<open>None\<close> otherwise.
\<close>

definition estimate_trend ::
  "(rat list \<Rightarrow> rat list \<Rightarrow> error + rat) \<Rightarrow> (rat list \<Rightarrow> rat list \<Rightarrow> error + rat \<times> rat) option \<Rightarrow>
   dataframe \<Rightarrow> string \<Rightarrow> resample_rule \<Rightarrow> error + (rat option \<times> rat option)" where
  "estimate_trend polyfit stats df var rule =
     (if var \<notin> dom (df_columns df) then Inl (KeyError var)
      else case getitem df var of
        Inl e \<Rightarrow> Inl e
      | Inr col \<Rightarrow>
          let ser = resample_mean rule (dropna col) in
          if ser = [] \<or> length ser < 2 then Inr (None, None)
          else
            let years = map (\<lambda>(b, v). of_int (bucket_year rule b)) ser;
                vals = map snd ser;
                msk = map (\<lambda>v. v \<noteq> None) vals
            in if length (filter (\<lambda>m. m) msk) < 2 then Inr (None, None)
               else
                 let x = map fst (filter (\<lambda>(yr, m). m) (zip years msk));
                     y = List.map_filter (\<lambda>v. v) vals
                 in case polyfit x y of
                      Inl e \<Rightarrow> Inl e
                    | Inr slope \<Rightarrow>
                        (case stats of
                           None \<Rightarrow> Inr (Some slope, None)
                         | Some linregress \<Rightarrow>
                             (case linregress x y of
                                Inl e \<Rightarrow> Inl e
                              | Inr (sl, p) \<Rightarrow> Inr (Some sl, Some p))))"

text \<open>
  The buckets that are left once missing values are dropped and empty buckets are
  dropped: the buckets that hold at least one sample.
\<close>

definition valid_buckets :: "resample_rule \<Rightarrow> series \<Rightarrow> int set" where
  "valid_buckets r col = (\<lambda>(t, v). bucket_of r t) ` set (dropna col)"

section \<open>\<open>detect_heatwaves\<close> and \<open>detect_cold_spells\<close>\<close>

text \<open>
  The comparisons \<^verbatim>\<open>s > thresh\<close> and \<^verbatim>\<open>s < thresh\<close> on one value: with a missing value or a
  missing threshold on either side they are False.
\<close>

definition above_thresh :: "rat option \<Rightarrow> rat option \<Rightarrow> bool" where
  "above_thresh v th = (case (v, th) of (Some x, Some c) \<Rightarrow> c < x | _ \<Rightarrow> False)"

definition below_thresh :: "rat option \<Rightarrow> rat option \<Rightarrow> bool" where
  "below_thresh v th = (case (v, th) of (Some x, Some c) \<Rightarrow> x < c | _ \<Rightarrow> False)"

text \<open>
  The loop over the ranges: a range of at least \<open>min_duration\<close> positions gives the pair of
  the index labels at its two ends; reading the index outside its length is an
  \<^verbatim>\<open>IndexError\<close>.
\<close>

fun date_ranges :: "series \<Rightarrow> int \<Rightarrow> (nat \<times> nat) list \<Rightarrow> error + (timestamp \<times> timestamp) list" where
  "date_ranges s min_duration [] = Inr []"
| "date_ranges s min_duration ((start_i, end_i) # rs) =
     (if min_duration \<le> int end_i - int start_i + 1
      then
        (if start_i < length s \<and> end_i < length s
         then (case date_ranges s min_duration rs of
                 Inl e \<Rightarrow> Inl e
               | Inr results \<Rightarrow> Inr ((fst (s ! start_i), fst (s ! end_i)) # results))
         else Inl IndexError)
      else date_ranges s min_duration rs)"

definition detect_heatwaves ::
  "dataframe \<Rightarrow> string \<Rightarrow> rat \<Rightarrow> int \<Rightarrow> error + (timestamp \<times> timestamp) list" where
  "detect_heatwaves df var percentile min_duration =
     (if var \<notin> dom (df_columns df) then Inl (KeyError var)
      else case getitem df var of
        Inl e \<Rightarrow> Inl e
      | Inr s \<Rightarrow>
          (case nanpercentile (map snd (dropna s)) percentile of
             Inl e \<Rightarrow> Inl e
           | Inr thresh \<Rightarrow>
               let msk = map (\<lambda>(t, v). above_thresh v thresh) s;
                   ranges = consecutive_ranges msk
               in date_ranges s min_duration ranges))"

definition detect_cold_spells ::
  "dataframe \<Rightarrow> string \<Rightarrow> rat \<Rightarrow> int \<Rightarrow> error + (timestamp \<times> timestamp) list" where
  "detect_cold_spells df var percentile min_duration =
     (if var \<notin> dom (df_columns df) then Inl (KeyError var)
      else case getitem df var of
        Inl e \<Rightarrow> Inl e
      | Inr s \<Rightarrow>
          (case nanpercentile (map snd (dropna s)) percentile of
             Inl e \<Rightarrow> Inl e
           | Inr thresh \<Rightarrow>
               let msk = map (\<lambda>(t, v). below_thresh v thresh) s;
                   ranges = consecutive_ranges msk
               in date_ranges s min_duration ranges))"

section \<open>\<open>detect_droughts\<close>\<close>

record season =
  year :: int
  start :: timestamp
  end_day :: timestamp
  precip :: rat
  is_drought :: bool
  cutoff :: "rat option"

text \<open>\<^verbatim>\<open>sorted(set(df.index.year))\<close>.\<close>

definition index_years :: "timestamp list \<Rightarrow> int list" where
  "index_years idx = sort (remdups (map year_of idx))"

text \<open>\<^verbatim>\<open>pr.loc[(pr.index >= start) & (pr.index <= end)].sum()\<close>.\<close>

definition season_sum :: "samples \<Rightarrow> timestamp \<Rightarrow> timestamp \<Rightarrow> rat" where
  "season_sum pr s e = sum_list (map snd (filter (\<lambda>(t, v). s \<le> t \<and> t \<le> e) pr))"

text \<open>\<^verbatim>\<open>out["precip"] <= cutoff\<close> on one total; against a missing cutoff it is False.\<close>

definition at_most :: "rat \<Rightarrow> rat option \<Rightarrow> bool" where
  "at_most p c = (case c of None \<Rightarrow> False | Some x \<Rightarrow> p \<le> x)"

text \<open>
  The timestamp constructor refuses a month outside 1..12 with a \<^verbatim>\<open>ValueError\<close>, at the
  first year of the loop; a frame with no year at all reaches \<^verbatim>\<open>set_index("year")\<close> with
  no column of that name, a \<^verbatim>\<open>KeyError\<close>.
\<close>

definition detect_droughts ::
  "dataframe \<Rightarrow> string \<Rightarrow> int \<times> int \<Rightarrow> rat \<Rightarrow> error + season list" where
  "detect_droughts df prcp_var season_months percentile =
     (if prcp_var \<notin> dom (df_columns df) then Inl (KeyError prcp_var)
      else case getitem df prcp_var of
        Inl e \<Rightarrow> Inl e
      | Inr col \<Rightarrow>
          let pr = fillna0 col;
              months = season_months;
              years = index_years (df_index df)
          in if years \<noteq> [] \<and> \<not> (1 \<le> fst months \<and> fst months \<le> 12 \<and> 1 \<le> snd months \<and> snd months \<le> 12)
             then Inl ValueError
             else
               let seasons =
                     map (\<lambda>y.
                            let s = days_from_civil y (fst months) 1;
                                e = days_from_civil y (snd months) (days_in_month y (snd months))
                            in (y, s, e, season_sum pr s e)) years
               in if seasons = [] then Inl (KeyError ''year'')
                  else case nanpercentile (map (\<lambda>(y, s, e, p). p) seasons) percentile of
                         Inl e \<Rightarrow> Inl e
                       | Inr c \<Rightarrow>
                           Inr (map (\<lambda>(y, s, e, p).
                                  \<lparr>year = y, start = s, end_day = e, precip = p,
                                   is_drought = at_most p c, cutoff = c\<rparr>) seasons))"

section \<open>The run detector returns the maximal runs\<close>

lemma ranges_loop_grow:
  "ranges_loop prev xs (starts @ [a], ends) = (starts', ends') \<Longrightarrow>
   length starts = length ends \<Longrightarrow>
   zip starts' (ends' @ [last (prev # xs)]) = zip starts ends @ grow a prev xs"
proof (induction xs arbitrary: prev starts ends a)
  case Nil
  then show ?case by auto
next
  case (Cons x xs)
  show ?case
  proof (cases "x = Suc prev")
    case True
    with Cons.prems have "ranges_loop x xs (starts @ [a], ends) = (starts', ends')" by simp
    from Cons.IH [OF this Cons.prems(2)] True show ?thesis by simp
  next
    case False
    with Cons.prems have "ranges_loop x xs ((starts @ [a]) @ [x], ends @ [prev]) = (starts', ends')"
      by simp
    from Cons.IH [OF this] Cons.prems(2) False show ?thesis by simp
  qed
qed

lemma list_ex_where_true: "list_ex (\<lambda>b. b) bs \<longleftrightarrow> where_true bs \<noteq> []"
proof -
  have "(\<exists>b\<in>set bs. b) \<longleftrightarrow> (\<exists>i<length bs. bs ! i)" by (metis in_set_conv_nth)
  then show ?thesis by (auto simp add: where_true_def list_ex_iff filter_empty_conv)
qed

lemma consecutive_ranges_grow:
  "consecutive_ranges bs = (case where_true bs of [] \<Rightarrow> [] | x # xs \<Rightarrow> grow x x xs)"
proof (cases "where_true bs")
  case Nil
  then show ?thesis by (simp add: consecutive_ranges_def list_ex_where_true)
next
  case (Cons x xs)
  obtain starts' ends' where l: "ranges_loop x xs ([] @ [x], []) = (starts', ends')"
    by (cases "ranges_loop x xs ([] @ [x], [])") 
  from ranges_loop_grow [OF l] have "zip starts' (ends' @ [last (x # xs)]) = grow x x xs" by simp
  with Cons l show ?thesis by (simp add: consecutive_ranges_def list_ex_where_true)
qed

lemma concat_grow: "a \<le> b \<Longrightarrow> concat (map expand (grow a b ys)) = [a..<Suc b] @ ys"
  by (induction ys arbitrary: a b) (auto simp: expand_def)

lemma grow_le: "a \<le> b \<Longrightarrow> (c, d) \<in> set (grow a b ys) \<Longrightarrow> c \<le> d"
proof (induction ys arbitrary: a b)
  case Nil
  then show ?case by simp
next
  case (Cons y ys)
  show ?case
  proof (cases "y = Suc b")
    case True
    with Cons.prems have "(c, d) \<in> set (grow a y ys)" and "a \<le> y" by simp_all
    then show ?thesis using Cons.IH [of a y] by simp
  next
    case False
    with Cons.prems have "(c, d) = (a, b) \<or> (c, d) \<in> set (grow y y ys)" by simp
    then show ?thesis using Cons.IH [of y y] Cons.prems(1) by auto
  qed
qed

lemma grow_fst: "(c, d) \<in> set (grow a b ys) \<Longrightarrow> c = a \<or> c \<in> set ys"
  by (induction ys arbitrary: a b) (auto split: if_splits)

lemma grow_apart: "sorted_wrt (<) (b # ys) \<Longrightarrow> sorted_wrt apart (grow a b ys)"
proof (induction ys arbitrary: a b)
  case Nil
  then show ?case by simp
next
  case (Cons y ys)
  show ?case
  proof (cases "y = Suc b")
    case True
    with Cons show ?thesis by simp
  next
    case False
    from Cons.prems have s: "sorted_wrt (<) (y # ys)" and lt: "b < y" by auto
    have "apart (a, b) r" if "r \<in> set (grow y y ys)" for r
    proof -
      obtain c d where r: "r = (c, d)" by (cases r)
      from that grow_fst [of c d y y ys] r have "c = y \<or> c \<in> set ys" by simp
      with s lt False show ?thesis by (auto simp: apart_def r)
    qed
    with Cons.IH [OF s] False show ?thesis by simp
  qed
qed

lemma where_true_sorted: "sorted_wrt (<) (where_true bs)"
  by (simp add: where_true_def sorted_wrt_filter)

lemma set_where_true: "set (where_true bs) = {i. i < length bs \<and> bs ! i}"
  by (auto simp: where_true_def)

lemma concat_ranges: "concat (map expand (consecutive_ranges bs)) = where_true bs"
  by (simp add: consecutive_ranges_grow concat_grow split: list.splits)

lemma ranges_le: "(a, b) \<in> set (consecutive_ranges bs) \<Longrightarrow> a \<le> b"
proof (cases "where_true bs")
  case Nil
  then show "(a, b) \<in> set (consecutive_ranges bs) \<Longrightarrow> a \<le> b"
    by (simp add: consecutive_ranges_grow)
next
  case (Cons x xs)
  assume "(a, b) \<in> set (consecutive_ranges bs)"
  with Cons have "(a, b) \<in> set (grow x x xs)" by (simp add: consecutive_ranges_grow)
  then show "a \<le> b" using grow_le [of x x a b xs] by simp
qed

lemma ranges_apart: "sorted_wrt apart (consecutive_ranges bs)"
proof (cases "where_true bs")
  case Nil
  then show ?thesis by (simp add: consecutive_ranges_grow)
next
  case (Cons x xs)
  with where_true_sorted [of bs] have "sorted_wrt (<) (x # xs)" by simp
  then have "sorted_wrt apart (grow x x xs)" by (rule grow_apart)
  with Cons show ?thesis by (simp add: consecutive_ranges_grow)
qed


lemma in_expand: "i \<in> set (expand r) \<longleftrightarrow> fst r \<le> i \<and> i \<le> snd r"
  by (auto simp: expand_def)

lemma in_ranges_iff:
  "(\<exists>r\<in>set (consecutive_ranges bs). fst r \<le> i \<and> i \<le> snd r) \<longleftrightarrow> i < length bs \<and> bs ! i"
proof -
  have "i \<in> set (concat (map expand (consecutive_ranges bs))) \<longleftrightarrow> i \<in> set (where_true bs)"
    by (simp only: concat_ranges)
  then show ?thesis by (simp add: in_expand set_where_true)
qed

lemma apart_total:
  "sorted_wrt apart rs \<Longrightarrow> r \<in> set rs \<Longrightarrow> s \<in> set rs \<Longrightarrow> r = s \<or> apart r s \<or> apart s r"
  by (induction rs) auto

lemma apart_distinct:
  "sorted_wrt apart rs \<Longrightarrow> \<forall>r\<in>set rs. fst r \<le> snd r \<Longrightarrow> distinct rs"
  by (induction rs) (auto simp: apart_def)

lemma ranges_fst_le_snd: "r \<in> set (consecutive_ranges bs) \<Longrightarrow> fst r \<le> snd r"
  using ranges_le [of "fst r" "snd r" bs] by simp

lemma range_unique:
  assumes "r \<in> set (consecutive_ranges bs)" "s \<in> set (consecutive_ranges bs)"
    and "fst r \<le> i" "i \<le> snd r" "fst s \<le> i" "i \<le> snd s"
  shows "r = s"
proof -
  from apart_total [OF ranges_apart assms(1,2)]
  consider "r = s" | "apart r s" | "apart s r" by blast
  then show ?thesis
  proof cases
    case 1 then show ?thesis .
  next
    case 2 with assms(3-6) show ?thesis by (simp add: apart_def)
  next
    case 3 with assms(3-6) show ?thesis by (simp add: apart_def)
  qed
qed

lemma list_all_upt: "list_all P [a..<Suc b] \<longleftrightarrow> (\<forall>i. a \<le> i \<and> i \<le> b \<longrightarrow> P i)"
proof -
  have "set [a..<Suc b] = {i. a \<le> i \<and> i \<le> b}" by auto
  then show ?thesis unfolding list_all_iff by blast
qed

lemma maximal_run_iff:
  "maximal_run bs (a, b) \<longleftrightarrow>
     a \<le> b \<and> b < length bs \<and> (\<forall>i. a \<le> i \<and> i \<le> b \<longrightarrow> bs ! i)
     \<and> (a = 0 \<or> \<not> bs ! (a - 1)) \<and> (Suc b = length bs \<or> \<not> bs ! Suc b)"
  unfolding maximal_run_def list_all_upt by simp

lemma ranges_maximal:
  assumes r: "r \<in> set (consecutive_ranges bs)"
  shows "maximal_run bs r"
proof -
  obtain a b where ab: "r = (a, b)" by (cases r)
  from r ab have le: "a \<le> b" using ranges_fst_le_snd [of r bs] by simp
  have inside: "i < length bs \<and> bs ! i" if "a \<le> i" "i \<le> b" for i
  proof -
    from r ab that have "\<exists>r\<in>set (consecutive_ranges bs). fst r \<le> i \<and> i \<le> snd r"
      by (intro bexI [of _ r]) simp_all
    then show ?thesis by (simp only: in_ranges_iff)
  qed
  have left: "a = 0 \<or> \<not> bs ! (a - 1)"
  proof (rule ccontr)
    assume "\<not> (a = 0 \<or> \<not> bs ! (a - 1))"
    then have a: "0 < a" and t: "bs ! (a - 1)" by auto
    from inside [of a] le have "a < length bs" by simp
    with a t have "a - 1 < length bs \<and> bs ! (a - 1)" by simp
    then obtain s where s: "s \<in> set (consecutive_ranges bs)" "fst s \<le> a - 1" "a - 1 \<le> snd s"
      using in_ranges_iff [of bs "a - 1"] by auto
    from apart_total [OF ranges_apart r s(1)] consider "r = s" | "apart r s" | "apart s r" by blast
    then show False
    proof cases
      case 1 with s ab a show False by simp
    next
      case 2 with s ab a le show False by (simp add: apart_def)
    next
      case 3 with s ab a le show False by (simp add: apart_def)
    qed
  qed
  have right: "Suc b = length bs \<or> \<not> bs ! Suc b"
  proof (rule ccontr)
    assume "\<not> (Suc b = length bs \<or> \<not> bs ! Suc b)"
    then have n: "Suc b \<noteq> length bs" and t: "bs ! Suc b" by auto
    from inside [of b] le have "b < length bs" by simp
    with n t have "Suc b < length bs \<and> bs ! Suc b" by simp
    then obtain s where s: "s \<in> set (consecutive_ranges bs)" "fst s \<le> Suc b" "Suc b \<le> snd s"
      using in_ranges_iff [of bs "Suc b"] by auto
    from apart_total [OF ranges_apart r s(1)] consider "r = s" | "apart r s" | "apart s r" by blast
    then show False
    proof cases
      case 1 with s ab show False by simp
    next
      case 2 with s ab le show False by (simp add: apart_def)
    next
      case 3 with s ab le show False by (simp add: apart_def)
    qed
  qed
  from le inside [of b] inside left right show ?thesis
    unfolding ab maximal_run_iff by blast
qed

lemma maximal_in_ranges:
  assumes m: "maximal_run bs r"
  shows "r \<in> set (consecutive_ranges bs)"
proof -
  obtain a b where ab: "r = (a, b)" by (cases r)
  from m [unfolded ab maximal_run_iff] have le: "a \<le> b" and bl: "b < length bs"
    and inside: "\<And>i. a \<le> i \<Longrightarrow> i \<le> b \<Longrightarrow> bs ! i"
    and left: "a = 0 \<or> \<not> bs ! (a - 1)"
    and right: "Suc b = length bs \<or> \<not> bs ! Suc b"
    by blast+
  from le bl inside [of a] have "a < length bs \<and> bs ! a" by simp
  then obtain s where s: "s \<in> set (consecutive_ranges bs)" "fst s \<le> a" "a \<le> snd s"
    using in_ranges_iff [of bs a] by auto
  obtain c d where cd: "s = (c, d)" by (cases s)
  from ranges_maximal [OF s(1), unfolded cd maximal_run_iff] have cle: "c \<le> d" and dl: "d < length bs"
    and sinside: "\<And>i. c \<le> i \<Longrightarrow> i \<le> d \<Longrightarrow> bs ! i"
    and sleft: "c = 0 \<or> \<not> bs ! (c - 1)"
    and sright: "Suc d = length bs \<or> \<not> bs ! Suc d"
    by blast+
  from s cd have ca: "c \<le> a" and ad: "a \<le> d" by simp_all
  have "c = a"
  proof (rule ccontr)
    assume "c \<noteq> a"
    with ca have "c \<le> a - 1" "a - 1 \<le> d" "0 < a" using ad by simp_all
    with sinside [of "a - 1"] left show False by simp
  qed
  moreover have "d = b"
  proof (rule ccontr)
    assume "d \<noteq> b"
    then consider "d < b" | "b < d" by linarith
    then show False
    proof cases
      case 1
      with ad have "a \<le> Suc d" "Suc d \<le> b" by simp_all
      with inside [of "Suc d"] sright bl 1 show False by simp
    next
      case 2
      with ca le have "c \<le> Suc b" "Suc b \<le> d" by simp_all
      with sinside [of "Suc b"] right dl 2 show False by simp
    qed
  qed
  ultimately show ?thesis using s(1) cd ab by simp
qed

lemma mask_of_ranges_id: "mask_of_ranges (length bs) (consecutive_ranges bs) = bs"
proof (rule nth_equalityI)
  show "length (mask_of_ranges (length bs) (consecutive_ranges bs)) = length bs"
    by (simp add: mask_of_ranges_def)
next
  fix i assume "i < length (mask_of_ranges (length bs) (consecutive_ranges bs))"
  then have i: "i < length bs" by (simp add: mask_of_ranges_def)
  have "covered (consecutive_ranges bs) i \<longleftrightarrow>
        (\<exists>r\<in>set (consecutive_ranges bs). fst r \<le> i \<and> i \<le> snd r)"
    unfolding covered_def list_ex_iff by (simp add: case_prod_beta)
  with in_ranges_iff [of bs i] i
  show "mask_of_ranges (length bs) (consecutive_ranges bs) ! i = bs ! i"
    by (simp add: mask_of_ranges_def)
qed


text \<open>
  Claim C1. For every boolean sequence the run detector returns exactly the maximal runs
  of consecutive True positions, as inclusive pairs: the returned pairs are the maximal
  runs, each once and in ascending order; every returned range holds True positions
  only; every True position lies in exactly one returned range; two returned ranges
  neither overlap nor touch; an isolated True position \<open>i\<close> gives the range \<open>(i, i)\<close>;
  a sequence with no True position (the empty one too) gives the empty list.
\<close>

theorem consecutive_ranges_maximal_runs:
  "set (consecutive_ranges bs) = {r. maximal_run bs r}
   \<and> distinct (consecutive_ranges bs)
   \<and> sorted_wrt apart (consecutive_ranges bs)
   \<and> (\<forall>r\<in>set (consecutive_ranges bs).
         fst r \<le> snd r \<and> snd r < length bs \<and> (\<forall>i. fst r \<le> i \<and> i \<le> snd r \<longrightarrow> bs ! i))
   \<and> (\<forall>i<length bs. bs ! i \<longrightarrow>
         (\<exists>!r. r \<in> set (consecutive_ranges bs) \<and> fst r \<le> i \<and> i \<le> snd r))
   \<and> (\<forall>i<length bs. bs ! i \<and> (i = 0 \<or> \<not> bs ! (i - 1)) \<and> (Suc i = length bs \<or> \<not> bs ! Suc i)
         \<longrightarrow> (i, i) \<in> set (consecutive_ranges bs))
   \<and> ((\<forall>i<length bs. \<not> bs ! i) \<longrightarrow> consecutive_ranges bs = [])"
proof (intro conjI)
  show "set (consecutive_ranges bs) = {r. maximal_run bs r}"
    using ranges_maximal maximal_in_ranges by blast
  show "distinct (consecutive_ranges bs)"
    using ranges_apart ranges_fst_le_snd by (blast intro: apart_distinct)
  show "sorted_wrt apart (consecutive_ranges bs)" by (rule ranges_apart)
  show "\<forall>r\<in>set (consecutive_ranges bs).
         fst r \<le> snd r \<and> snd r < length bs \<and> (\<forall>i. fst r \<le> i \<and> i \<le> snd r \<longrightarrow> bs ! i)"
  proof
    fix r assume "r \<in> set (consecutive_ranges bs)"
    then have "maximal_run bs (fst r, snd r)" using ranges_maximal [of r bs] by simp
    then show "fst r \<le> snd r \<and> snd r < length bs \<and> (\<forall>i. fst r \<le> i \<and> i \<le> snd r \<longrightarrow> bs ! i)"
      unfolding maximal_run_iff by blast
  qed
  show "\<forall>i<length bs. bs ! i \<longrightarrow>
         (\<exists>!r. r \<in> set (consecutive_ranges bs) \<and> fst r \<le> i \<and> i \<le> snd r)"
  proof (intro allI impI)
    fix i assume "i < length bs" "bs ! i"
    then have "\<exists>r\<in>set (consecutive_ranges bs). fst r \<le> i \<and> i \<le> snd r"
      by (simp only: in_ranges_iff)
    then show "\<exists>!r. r \<in> set (consecutive_ranges bs) \<and> fst r \<le> i \<and> i \<le> snd r"
      using range_unique [of _ bs _ i] by blast
  qed
  show "\<forall>i<length bs. bs ! i \<and> (i = 0 \<or> \<not> bs ! (i - 1)) \<and> (Suc i = length bs \<or> \<not> bs ! Suc i)
         \<longrightarrow> (i, i) \<in> set (consecutive_ranges bs)"
  proof (intro allI impI)
    fix i
    assume "i < length bs"
      and "bs ! i \<and> (i = 0 \<or> \<not> bs ! (i - 1)) \<and> (Suc i = length bs \<or> \<not> bs ! Suc i)"
    then have "maximal_run bs (i, i)" unfolding maximal_run_iff by auto
    then show "(i, i) \<in> set (consecutive_ranges bs)" by (rule maximal_in_ranges)
  qed
  show "(\<forall>i<length bs. \<not> bs ! i) \<longrightarrow> consecutive_ranges bs = []"
  proof
    assume "\<forall>i<length bs. \<not> bs ! i"
    then have "where_true bs = []" by (simp add: where_true_def filter_empty_conv)
    then show "consecutive_ranges bs = []" by (simp add: consecutive_ranges_grow)
  qed
qed

theorem consecutive_ranges_maximal_runs_witness:
  "consecutive_ranges [False, True, True, False, True] = [(1, 2), (4, 4)]
   \<and> {r. maximal_run [False, True, True, False, True] r} = {(1, 2), (4, 4)}
   \<and> (\<exists>!r. r \<in> set (consecutive_ranges [False, True, True, False, True]) \<and> fst r \<le> 2 \<and> 2 \<le> snd r)
   \<and> consecutive_ranges [False, False] = []
   \<and> consecutive_ranges [] = []"
proof -
  have e: "consecutive_ranges [False, True, True, False, True] = [(1, 2), (4, 4)]"
    by code_simp
  have l: "(2::nat) < length [False, True, True, False, True]"
    and t: "[False, True, True, False, True] ! 2" by simp_all
  have n: "\<forall>i<length [False, False]. \<not> [False, False] ! i" by (simp add: less_Suc_eq)
  note a = consecutive_ranges_maximal_runs [of "[False, True, True, False, True]"]
  note b = consecutive_ranges_maximal_runs [of "[False, False]"]
  note c = consecutive_ranges_maximal_runs [of "[]"]
  from a e have "{r. maximal_run [False, True, True, False, True] r} = {(1, 2), (4, 4)}"
    by simp
  moreover from a l t
  have "\<exists>!r. r \<in> set (consecutive_ranges [False, True, True, False, True]) \<and> fst r \<le> 2 \<and> 2 \<le> snd r"
    by blast
  moreover from b n have "consecutive_ranges [False, False] = []" by blast
  moreover from c have "consecutive_ranges [] = []" by simp
  ultimately show ?thesis using e by simp
qed

text \<open>
  Claim C9. The run detector is idempotent: the mask of the same length that is True
  exactly at the positions the returned ranges cover gives the same ranges again.
\<close>

theorem consecutive_ranges_idempotent:
  "consecutive_ranges (mask_of_ranges (length bs) (consecutive_ranges bs)) = consecutive_ranges bs"
  by (simp only: mask_of_ranges_id)

theorem consecutive_ranges_idempotent_witness:
  "mask_of_ranges 5 [(1, 2), (4, 4)] = [False, True, True, False, True]
   \<and> consecutive_ranges (mask_of_ranges 5 [(1, 2), (4, 4)]) = [(1, 2), (4, 4)]"
proof -
  have e: "consecutive_ranges [False, True, True, False, True] = [(1, 2), (4, 4)]"
    by code_simp
  have m: "mask_of_ranges 5 [(1, 2), (4, 4)] = [False, True, True, False, True]"
    by code_simp
  have l: "length [False, True, True, False, True] = 5" by simp
  note i = consecutive_ranges_idempotent [of "[False, True, True, False, True]", unfolded e l]
  from m i show ?thesis by (rule conjI)
qed

section \<open>Columns and missing values\<close>

lemma getitem_Some: "df_columns df var = Some vs \<Longrightarrow> getitem df var = Inr (zip (df_index df) vs)"
  by (simp add: getitem_def)

lemma getitem_None: "var \<notin> dom (df_columns df) \<Longrightarrow> getitem df var = Inl (KeyError var)"
  by (simp add: getitem_def domIff)

lemma set_dropna: "set (dropna s) = {(t, v). (t, Some v) \<in> set s}"
  by (induction s rule: dropna.induct) auto

lemma fst_dropna_subset: "set (map fst (dropna s)) \<subseteq> set (map fst s)"
  by (induction s rule: dropna.induct) auto

lemma sorted_dropna: "sorted (map fst s) \<Longrightarrow> sorted (map fst (dropna s))"
proof (induction s rule: dropna.induct)
  case (3 t v s)
  then have "\<forall>x\<in>set (map fst s). t \<le> x" by simp
  with fst_dropna_subset [of s] have "\<forall>x\<in>set (map fst (dropna s)). t \<le> x" by blast
  with 3 show ?case by simp
qed simp_all

lemma distinct_dropna: "distinct (map fst s) \<Longrightarrow> distinct (map fst (dropna s))"
proof (induction s rule: dropna.induct)
  case (3 t v s)
  then have "t \<notin> set (map fst s)" by simp
  with fst_dropna_subset [of s] have "t \<notin> set (map fst (dropna s))" by blast
  with 3 show ?case by simp
qed simp_all

lemma sorted_zip_index: "sorted idx \<Longrightarrow> sorted (map fst (zip idx vs))"
  by (simp add: map_fst_zip_take sorted_wrt_take)

lemma distinct_zip_index: "distinct idx \<Longrightarrow> distinct (map fst (zip idx vs))"
  by (simp add: map_fst_zip_take)

section \<open>A missing variable\<close>

text \<open>
  Claim C8. Every analysis entry point fails with the missing-variable error
  (\<^verbatim>\<open>KeyError\<close> of the name) when the name is not a column of the frame, whatever the
  frame and the other arguments are.
\<close>

theorem missing_variable_KeyError:
  assumes "var \<notin> dom (df_columns df)"
  shows "get_monthly_records df var = Inl (KeyError var)
     \<and> rolling_mean other df var window_days = Inl (KeyError var)
     \<and> estimate_trend polyfit stats df var rule = Inl (KeyError var)
     \<and> detect_heatwaves df var percentile min_duration = Inl (KeyError var)
     \<and> detect_cold_spells df var percentile min_duration = Inl (KeyError var)
     \<and> detect_droughts df var season_months percentile = Inl (KeyError var)"
  using assms getitem_None [OF assms]
  by (simp add: get_monthly_records_def rolling_mean_def estimate_trend_def
      detect_heatwaves_def detect_cold_spells_def detect_droughts_def)

theorem missing_variable_KeyError_witness:
  "''NONEXISTENT'' \<notin> dom (df_columns \<lparr>df_index = [0, 1], df_columns = [''T'' \<mapsto> [Some 1, None]]\<rparr>)
   \<and> get_monthly_records \<lparr>df_index = [0, 1], df_columns = [''T'' \<mapsto> [Some 1, None]]\<rparr> ''NONEXISTENT''
       = Inl (KeyError ''NONEXISTENT'')
   \<and> rolling_mean refusing \<lparr>df_index = [0, 1], df_columns = [''T'' \<mapsto> [Some 1, None]]\<rparr> ''NONEXISTENT'' 30
       = Inl (KeyError ''NONEXISTENT'')
   \<and> estimate_trend (\<lambda>x y. Inl ValueError) None
        \<lparr>df_index = [0, 1], df_columns = [''T'' \<mapsto> [Some 1, None]]\<rparr> ''NONEXISTENT'' annual
       = Inl (KeyError ''NONEXISTENT'')
   \<and> detect_heatwaves \<lparr>df_index = [0, 1], df_columns = [''T'' \<mapsto> [Some 1, None]]\<rparr> ''NONEXISTENT'' 90 3
       = Inl (KeyError ''NONEXISTENT'')
   \<and> detect_cold_spells \<lparr>df_index = [0, 1], df_columns = [''T'' \<mapsto> [Some 1, None]]\<rparr> ''NONEXISTENT'' 10 3
       = Inl (KeyError ''NONEXISTENT'')
   \<and> detect_droughts \<lparr>df_index = [0, 1], df_columns = [''T'' \<mapsto> [Some 1, None]]\<rparr> ''NONEXISTENT'' (4, 9) 20
       = Inl (KeyError ''NONEXISTENT'')"
proof -
  have h: "''NONEXISTENT'' \<notin> dom (df_columns \<lparr>df_index = [0, 1], df_columns = [''T'' \<mapsto> [Some 1, None]]\<rparr>)"
    by simp
  from h missing_variable_KeyError [OF h] show ?thesis by blast
qed

section \<open>The window of \<open>rolling_mean\<close> is not checked\<close>




section \<open>Too few buckets for a trend\<close>

lemma mean_opt_None: "mean_opt xs = None \<longleftrightarrow> xs = []"
  by (simp add: mean_opt_def)

lemma bucket_filter_empty:
  "filter (\<lambda>(t, v). bucket_of r t = b) s = [] \<longleftrightarrow> b \<notin> (\<lambda>(t, v). bucket_of r t) ` set s"
  by (auto simp: filter_empty_conv)

lemma count_in_range:
  assumes "finite B" "B \<noteq> {}"
  shows "length (filter (\<lambda>b. b \<in> B) [Min B..Max B]) = card B"
proof -
  have "set (filter (\<lambda>b. b \<in> B) [Min B..Max B]) = B"
    using assms by (auto simp: Min_le Max_ge)
  moreover have "distinct (filter (\<lambda>b. b \<in> B) [Min B..Max B])" by simp
  ultimately show ?thesis using distinct_card [of "filter (\<lambda>b. b \<in> B) [Min B..Max B]"] by simp
qed

lemma resample_valid_count:
  "length (filter (\<lambda>m. m) (map (\<lambda>v. v \<noteq> None) (map snd (resample_mean r s))))
     = card ((\<lambda>(t, v). bucket_of r t) ` set s)"
proof (cases "s = []")
  case True
  then show ?thesis by (simp add: resample_mean_def)
next
  case False
  define B where "B = (\<lambda>(t, v). bucket_of r t) ` set s"
  have fin: "finite B" and ne: "B \<noteq> {}" using False by (simp_all add: B_def)
  have setbs: "set (map (\<lambda>(t, v). bucket_of r t) s) = B" by (simp add: B_def)
  have key: "(mean_opt (map snd (filter (\<lambda>(t, v). bucket_of r t = b) s)) \<noteq> None) = (b \<in> B)" for b
    unfolding mean_opt_None B_def using bucket_filter_empty [of r b s] by simp
  have "resample_mean r s
      = map (\<lambda>b. (b, mean_opt (map snd (filter (\<lambda>(t, v). bucket_of r t = b) s)))) [Min B..Max B]"
    using False unfolding resample_mean_def Let_def setbs by simp
  then have "map (\<lambda>v. v \<noteq> None) (map snd (resample_mean r s)) = map (\<lambda>b. b \<in> B) [Min B..Max B]"
    by (simp add: o_def key del: not_None_eq)
  then have "length (filter (\<lambda>m. m) (map (\<lambda>v. v \<noteq> None) (map snd (resample_mean r s))))
      = length (filter (\<lambda>b. b \<in> B) [Min B..Max B])"
    by (simp only: filter_map o_def length_map)
  with count_in_range [OF fin ne] show ?thesis by (simp only: B_def)
qed

text \<open>
  Claim C7. When the variable is a column and fewer than two buckets are left after
  the missing values are dropped, the samples are put into their calendar buckets and
  the empty buckets are dropped, \<open>estimate_trend\<close> returns the result with slope and
  p-value both absent, and no error.
\<close>

theorem estimate_trend_too_few_buckets:
  assumes "df_columns df var = Some vs"
    and "card (valid_buckets rule (zip (df_index df) vs)) < 2"
  shows "estimate_trend polyfit stats df var rule = Inr (None, None)"
proof -
  let ?ser = "resample_mean rule (dropna (zip (df_index df) vs))"
  from assms(1) have d: "var \<in> dom (df_columns df)" by auto
  have "length (filter (\<lambda>m. m) (map (\<lambda>v. v \<noteq> None) (map snd ?ser)))
      = card (valid_buckets rule (zip (df_index df) vs))"
    unfolding valid_buckets_def by (rule resample_valid_count)
  with assms(2) have "length (filter (\<lambda>m. m) (map (\<lambda>v. v \<noteq> None) (map snd ?ser))) < 2"
    by (simp only:)
  with d assms(1) show ?thesis
    by (simp add: estimate_trend_def getitem_def Let_def o_def del: not_None_eq)
qed

theorem estimate_trend_too_few_buckets_witness:
  "card (valid_buckets annual
      (zip (df_index \<lparr>df_index = [0, 1, 400], df_columns = [''T'' \<mapsto> [Some 3, Some 5, None]]\<rparr>)
         [Some 3, Some 5, None])) < 2
   \<and> estimate_trend (\<lambda>x y. Inl ValueError) None
        \<lparr>df_index = [0, 1, 400], df_columns = [''T'' \<mapsto> [Some 3, Some 5, None]]\<rparr> ''T'' annual
       = Inr (None, None)"
proof -
  have c: "df_columns \<lparr>df_index = [0, 1, 400], df_columns = [''T'' \<mapsto> [Some 3, Some 5, None]]\<rparr> ''T''
      = Some [Some 3, Some 5, None]" by simp
  have y0: "year_of 0 = 1970" by code_simp
  have y1: "year_of 1 = 1970" by code_simp
  have h: "card (valid_buckets annual
      (zip (df_index \<lparr>df_index = [0, 1, 400], df_columns = [''T'' \<mapsto> [Some 3, Some 5, None]]\<rparr>)
         [Some 3, Some 5, None])) < 2"
    by (simp add: valid_buckets_def annual_def y0 y1)
  from h estimate_trend_too_few_buckets [OF c h] show ?thesis by blast
qed

section \<open>Records: the extremes and their dates\<close>

lemma argmax_from_mem: "argmax_from best xs \<in> set (best # xs)"
  by (induction xs arbitrary: best) auto

lemma argmin_from_mem: "argmin_from best xs \<in> set (best # xs)"
  by (induction xs arbitrary: best) auto

lemma argmax_from_ge: "x \<in> set (best # xs) \<Longrightarrow> snd x \<le> snd (argmax_from best xs)"
proof (induction xs arbitrary: best x)
  case Nil
  then show ?case by simp
next
  case (Cons a xs)
  show ?case
  proof (cases "snd best < snd a")
    case True
    have "snd a \<le> snd (argmax_from a xs)" using Cons.IH [of a a] by simp
    with Cons.prems True Cons.IH [of x a] show ?thesis by auto
  next
    case False
    have "snd best \<le> snd (argmax_from best xs)" using Cons.IH [of best best] by simp
    with Cons.prems False Cons.IH [of x best] show ?thesis by auto
  qed
qed

lemma argmin_from_le: "x \<in> set (best # xs) \<Longrightarrow> snd (argmin_from best xs) \<le> snd x"
proof (induction xs arbitrary: best x)
  case Nil
  then show ?case by simp
next
  case (Cons a xs)
  show ?case
  proof (cases "snd a < snd best")
    case True
    have "snd (argmin_from a xs) \<le> snd a" using Cons.IH [of a a] by simp
    with Cons.prems True Cons.IH [of x a] show ?thesis by auto
  next
    case False
    have "snd (argmin_from best xs) \<le> snd best" using Cons.IH [of best best] by simp
    with Cons.prems False Cons.IH [of x best] show ?thesis by auto
  qed
qed

lemma argmax_from_first:
  "sorted (map fst (best # xs)) \<Longrightarrow> e \<in> set (best # xs) \<Longrightarrow>
   snd e = snd (argmax_from best xs) \<Longrightarrow> fst (argmax_from best xs) \<le> fst e"
proof (induction xs arbitrary: best e)
  case Nil
  then show ?case by simp
next
  case (Cons a xs)
  from Cons.prems(1) have sa: "sorted (map fst (a # xs))" and sb: "sorted (map fst (best # xs))"
    and ba: "fst best \<le> fst a" by auto
  show ?case
  proof (cases "snd best < snd a")
    case True
    then have r: "argmax_from best (a # xs) = argmax_from a xs" by simp
    have "snd a \<le> snd (argmax_from a xs)" using argmax_from_ge [of a a xs] by simp
    with True Cons.prems(3) r have "e \<noteq> best" by auto
    with Cons.prems(2) have "e \<in> set (a # xs)" by simp
    from Cons.IH [OF sa this] Cons.prems(3) r show ?thesis by simp
  next
    case False
    then have r: "argmax_from best (a # xs) = argmax_from best xs" by simp
    show ?thesis
    proof (cases "e = a")
      case True
      have "snd best \<le> snd (argmax_from best xs)" using argmax_from_ge [of best best xs] by simp
      with True False Cons.prems(3) r have "snd best = snd (argmax_from best xs)" by simp
      from Cons.IH [of best best, OF sb _ this] have "fst (argmax_from best xs) \<le> fst best" by simp
      with ba True r show ?thesis by simp
    next
      case False
      with Cons.prems(2) have "e \<in> set (best # xs)" by simp
      from Cons.IH [OF sb this] Cons.prems(3) r show ?thesis by simp
    qed
  qed
qed

lemma argmin_from_first:
  "sorted (map fst (best # xs)) \<Longrightarrow> e \<in> set (best # xs) \<Longrightarrow>
   snd e = snd (argmin_from best xs) \<Longrightarrow> fst (argmin_from best xs) \<le> fst e"
proof (induction xs arbitrary: best e)
  case Nil
  then show ?case by simp
next
  case (Cons a xs)
  from Cons.prems(1) have sa: "sorted (map fst (a # xs))" and sb: "sorted (map fst (best # xs))"
    and ba: "fst best \<le> fst a" by auto
  show ?case
  proof (cases "snd a < snd best")
    case True
    then have r: "argmin_from best (a # xs) = argmin_from a xs" by simp
    have "snd (argmin_from a xs) \<le> snd a" using argmin_from_le [of a a xs] by simp
    with True Cons.prems(3) r have "e \<noteq> best" by auto
    with Cons.prems(2) have "e \<in> set (a # xs)" by simp
    from Cons.IH [OF sa this] Cons.prems(3) r show ?thesis by simp
  next
    case False
    then have r: "argmin_from best (a # xs) = argmin_from best xs" by simp
    show ?thesis
    proof (cases "e = a")
      case True
      have "snd (argmin_from best xs) \<le> snd best" using argmin_from_le [of best best xs] by simp
      with True False Cons.prems(3) r have "snd best = snd (argmin_from best xs)" by simp
      from Cons.IH [of best best, OF sb _ this] have "fst (argmin_from best xs) \<le> fst best" by simp
      with ba True r show ?thesis by simp
    next
      case False
      with Cons.prems(2) have "e \<in> set (best # xs)" by simp
      from Cons.IH [OF sb this] Cons.prems(3) r show ?thesis by simp
    qed
  qed
qed

lemma filter_label_unique:
  "distinct (map fst s) \<Longrightarrow> (l, x) \<in> set s \<Longrightarrow> filter (\<lambda>(t, v). t = l) s = [(l, x)]"
proof (induction s)
  case Nil
  then show ?case by simp
next
  case (Cons a s)
  obtain t v where a: "a = (t, v)" by (cases a)
  show ?case
  proof (cases "t = l")
    case True
    with Cons.prems a have "l \<notin> fst ` set s" by simp
    then have "filter (\<lambda>(t, v). t = l) s = []" by (auto simp: filter_empty_conv image_iff)
    moreover from Cons.prems a True \<open>l \<notin> fst ` set s\<close> have "v = x" by (auto simp: image_iff)
    ultimately show ?thesis using a True by simp
  next
    case False
    with Cons a show ?thesis by auto
  qed
qed

lemma loc_unique: "distinct (map fst s) \<Longrightarrow> (l, x) \<in> set s \<Longrightarrow> loc s l = Inr (Scalar x)"
  by (simp add: loc_def filter_label_unique)

text \<open>
  Claim C6. For a frame with an ascending index without duplicates and a variable with
  at least one value that is not missing, \<open>get_monthly_records\<close> returns a record whose
  maximum is at least its minimum; both dates are timestamps of the frame's index; the
  values of the variable at these dates are the reported maximum and minimum; no value
  of the variable lies outside them; and of the dates that hold the maximum (the
  minimum) the earliest is reported.
\<close>

theorem get_monthly_records_extremes:
  assumes c: "df_columns df var = Some vs"
    and len: "length vs = length (df_index df)"
    and some: "\<exists>x. Some x \<in> set vs"
    and srt: "sorted (df_index df)"
    and dst: "distinct (df_index df)"
  shows "\<exists>r mx mn. get_monthly_records df var = Inr (Some r)
      \<and> max_value r = Scalar mx \<and> min_value r = Scalar mn \<and> mn \<le> mx
      \<and> max_date r \<in> set (df_index df) \<and> min_date r \<in> set (df_index df)
      \<and> (max_date r, Some mx) \<in> set (zip (df_index df) vs)
      \<and> (min_date r, Some mn) \<in> set (zip (df_index df) vs)
      \<and> (\<forall>t x. (t, Some x) \<in> set (zip (df_index df) vs) \<longrightarrow>
            mn \<le> x \<and> x \<le> mx \<and> (x = mx \<longrightarrow> max_date r \<le> t) \<and> (x = mn \<longrightarrow> min_date r \<le> t))"
proof -
  let ?col = "zip (df_index df) vs"
  let ?s = "dropna ?col"
  from some obtain x0 where "Some x0 \<in> set vs" by blast
  then obtain i where i: "i < length vs" "vs ! i = Some x0" by (auto simp: in_set_conv_nth)
  with len have "(df_index df ! i, Some x0) \<in> set ?col" by (auto simp: set_zip)
  then have "(df_index df ! i, x0) \<in> set ?s" by (simp add: set_dropna)
  then obtain b xs where s: "?s = b # xs" by (cases ?s) auto
  define M where "M = argmax_from b xs"
  define m where "m = argmin_from b xs"
  have Min: "M \<in> set ?s" and min: "m \<in> set ?s"
    using argmax_from_mem [of b xs] argmin_from_mem [of b xs] by (simp_all add: M_def m_def s)
  have ds: "distinct (map fst ?s)" and ss: "sorted (map fst ?s)"
    using dst srt by (simp_all add: distinct_dropna distinct_zip_index sorted_dropna sorted_zip_index)
  have lM: "loc ?s (fst M) = Inr (Scalar (snd M))" using loc_unique [OF ds, of "fst M" "snd M"] Min by simp
  have lm: "loc ?s (fst m) = Inr (Scalar (snd m))" using loc_unique [OF ds, of "fst m" "snd m"] min by simp
  let ?r = "\<lparr>max_value = Scalar (snd M), max_date = fst M, min_value = Scalar (snd m), min_date = fst m\<rparr>"
  from c have d: "var \<in> dom (df_columns df)" by auto
  have res: "get_monthly_records df var = Inr (Some ?r)"
  proof -
    have "idxmax ?s = Inr (fst M)" by (simp add: idxmax_def s M_def)
    moreover have "idxmin ?s = Inr (fst m)" by (simp add: idxmin_def s m_def)
    moreover have "?s \<noteq> []" by (simp add: s)
    ultimately show ?thesis using d c lM lm
      by (simp add: get_monthly_records_def getitem_def Let_def)
  qed
  have Mc: "(fst M, Some (snd M)) \<in> set ?col" and mc: "(fst m, Some (snd m)) \<in> set ?col"
    using Min min by (simp_all add: set_dropna case_prod_beta)
  have le: "snd m \<le> snd M" using argmax_from_ge [of m b xs] min by (simp add: s M_def)
  have all: "snd m \<le> x \<and> x \<le> snd M \<and> (x = snd M \<longrightarrow> fst M \<le> t) \<and> (x = snd m \<longrightarrow> fst m \<le> t)"
    if "(t, Some x) \<in> set ?col" for t x
  proof -
    from that have e: "(t, x) \<in> set (b # xs)" by (simp add: set_dropna s [symmetric])
    from ss have sb: "sorted (map fst (b # xs))" by (simp only: s)
    from argmax_from_ge [OF e] argmin_from_le [OF e]
      argmax_from_first [OF sb e] argmin_from_first [OF sb e]
    show ?thesis by (simp add: M_def m_def)
  qed
  from Mc mc have "fst M \<in> set (df_index df)" "fst m \<in> set (df_index df)"
    by (auto dest: set_zip_leftD)
  with res Mc mc le all show ?thesis
    by (intro exI [of _ ?r] exI [of _ "snd M"] exI [of _ "snd m"]) simp
qed

theorem get_monthly_records_extremes_witness:
  "get_monthly_records
     \<lparr>df_index = [10, 11, 12, 13, 14, 15],
      df_columns = [''T'' \<mapsto> [Some 1, None, Some 5, Some 5, Some 0, None]]\<rparr> ''T''
   = Inr (Some \<lparr>max_value = Scalar 5, max_date = 12, min_value = Scalar 0, min_date = 14\<rparr>)
   \<and> (\<exists>r mx mn. get_monthly_records
         \<lparr>df_index = [10, 11, 12, 13, 14, 15],
          df_columns = [''T'' \<mapsto> [Some 1, None, Some 5, Some 5, Some 0, None]]\<rparr> ''T'' = Inr (Some r)
        \<and> max_value r = Scalar mx \<and> min_value r = Scalar mn \<and> mn \<le> mx)"
proof -
  let ?df = "\<lparr>df_index = [10, 11, 12, 13, 14, 15],
      df_columns = [''T'' \<mapsto> [Some 1, None, Some 5, Some 5, Some 0, None]]\<rparr>"
  have c: "df_columns ?df ''T'' = Some [Some 1, None, Some 5, Some 5, Some 0, None]" by simp
  have len: "length [Some (1::rat), None, Some 5, Some 5, Some 0, None] = length (df_index ?df)" by simp
  have some: "\<exists>x. Some x \<in> set [Some (1::rat), None, Some 5, Some 5, Some 0, None]" by auto
  have srt: "sorted (df_index ?df)" and dst: "distinct (df_index ?df)" by simp_all
  have e: "get_monthly_records ?df ''T''
     = Inr (Some \<lparr>max_value = Scalar 5, max_date = 12, min_value = Scalar 0, min_date = 14\<rparr>)"
    by (simp add: get_monthly_records_def getitem_def idxmax_def idxmin_def loc_def)
  from get_monthly_records_extremes [OF c len some srt dst]
  have "\<exists>r mx mn. get_monthly_records ?df ''T'' = Inr (Some r)
        \<and> max_value r = Scalar mx \<and> min_value r = Scalar mn \<and> mn \<le> mx" by blast
  with e show ?thesis by (rule conjI)
qed

section \<open>The rolling mean over a trailing window of days\<close>







section \<open>Heatwaves and cold spells\<close>

lemma ranges_in_bounds:
  assumes "(a, b) \<in> set (consecutive_ranges bs)"
  shows "a \<le> b \<and> b < length bs"
  using ranges_maximal [OF assms, unfolded maximal_run_iff] by simp

lemma date_ranges_in_bounds:
  "\<forall>r\<in>set rs. fst r < length s \<and> snd r < length s \<Longrightarrow>
   date_ranges s md rs
     = Inr (map (\<lambda>(a, b). (fst (s ! a), fst (s ! b))) (filter (\<lambda>(a, b). md \<le> int b - int a + 1) rs))"
  by (induction s md rs rule: date_ranges.induct) auto

lemma marks_zip: "length vs = length idx \<Longrightarrow> map (\<lambda>(t, v). f v) (zip idx vs) = map f vs"
  by (induction vs idx rule: list_induct2) simp_all


lemma values_dropna_zip:
  "length idx = length vs \<Longrightarrow> map snd (dropna (zip idx vs)) = List.map_filter (\<lambda>v. v) vs"
proof (induction idx vs rule: list_induct2)
  case Nil
  then show ?case by (simp add: map_filter_simps)
next
  case (Cons t idx v vs)
  then show ?case by (cases v) (simp_all add: map_filter_simps)
qed

lemma labels_of_ranges:
  assumes len: "length vs = length idx"
    and b: "\<forall>r\<in>set rs. fst r < length vs \<and> snd r < length vs"
  shows "map (\<lambda>(a, b). (fst (zip idx vs ! a), fst (zip idx vs ! b))) rs
       = map (\<lambda>(a, b). (idx ! a, idx ! b)) rs"
  using b len by (intro map_cong) auto

lemma detect_result:
  assumes len: "length vs = length idx"
  shows "date_ranges (zip idx vs) md (consecutive_ranges (map (\<lambda>(t, v). f v) (zip idx vs)))
       = Inr (map (\<lambda>(a, b). (idx ! a, idx ! b))
               (filter (\<lambda>(a, b). md \<le> int b - int a + 1) (consecutive_ranges (map f vs))))"
proof -
  let ?rs = "consecutive_ranges (map f vs)"
  have m: "map (\<lambda>(t, v). f v) (zip idx vs) = map f vs" by (rule marks_zip [OF len])
  have b: "\<forall>r\<in>set ?rs. fst r < length vs \<and> snd r < length vs"
  proof
    fix r assume "r \<in> set ?rs"
    then have "(fst r, snd r) \<in> set ?rs" by simp
    from ranges_in_bounds [OF this] show "fst r < length vs \<and> snd r < length vs" by simp
  qed
  with len have b': "\<forall>r\<in>set ?rs. fst r < length (zip idx vs) \<and> snd r < length (zip idx vs)" by simp
  have bf: "\<forall>r\<in>set (filter (\<lambda>(a, b). md \<le> int b - int a + 1) ?rs).
      fst r < length vs \<and> snd r < length vs" using b by simp
  show ?thesis
    unfolding m date_ranges_in_bounds [OF b'] labels_of_ranges [OF len bf] ..
qed

lemma detect_heatwaves_result:
  assumes "df_columns df var = Some vs" "length vs = length (df_index df)"
    and "nanpercentile (List.map_filter (\<lambda>v. v) vs) percentile = Inr thresh"
  shows "detect_heatwaves df var percentile min_duration
       = Inr (map (\<lambda>(a, b). (df_index df ! a, df_index df ! b))
               (filter (\<lambda>(a, b). min_duration \<le> int b - int a + 1)
                  (consecutive_ranges (map (\<lambda>v. above_thresh v thresh) vs))))"
proof -
  from assms(1) have d: "var \<in> dom (df_columns df)" by auto
  from assms(2) have v: "map snd (dropna (zip (df_index df) vs)) = List.map_filter (\<lambda>v. v) vs"
    by (intro values_dropna_zip) simp
  from d assms(1,3) show ?thesis
    by (simp add: detect_heatwaves_def getitem_def v Let_def
        detect_result [OF assms(2), of min_duration "\<lambda>v. above_thresh v thresh"])
qed

lemma detect_cold_spells_result:
  assumes "df_columns df var = Some vs" "length vs = length (df_index df)"
    and "nanpercentile (List.map_filter (\<lambda>v. v) vs) percentile = Inr thresh"
  shows "detect_cold_spells df var percentile min_duration
       = Inr (map (\<lambda>(a, b). (df_index df ! a, df_index df ! b))
               (filter (\<lambda>(a, b). min_duration \<le> int b - int a + 1)
                  (consecutive_ranges (map (\<lambda>v. below_thresh v thresh) vs))))"
proof -
  from assms(1) have d: "var \<in> dom (df_columns df)" by auto
  from assms(2) have v: "map snd (dropna (zip (df_index df) vs)) = List.map_filter (\<lambda>v. v) vs"
    by (intro values_dropna_zip) simp
  from d assms(1,3) show ?thesis
    by (simp add: detect_cold_spells_def getitem_def v Let_def
        detect_result [OF assms(2), of min_duration "\<lambda>v. below_thresh v thresh"])
qed

lemma detect_heatwaves_error:
  assumes "df_columns df var = Some vs" "length vs = length (df_index df)"
    and "nanpercentile (List.map_filter (\<lambda>v. v) vs) percentile = Inl e"
  shows "detect_heatwaves df var percentile min_duration = Inl e"
proof -
  from assms(1) have d: "var \<in> dom (df_columns df)" by auto
  from assms(2) have v: "map snd (dropna (zip (df_index df) vs)) = List.map_filter (\<lambda>v. v) vs"
    by (intro values_dropna_zip) simp
  from d assms(1,3) show ?thesis by (simp add: detect_heatwaves_def getitem_def v)
qed

lemma detect_cold_spells_error:
  assumes "df_columns df var = Some vs" "length vs = length (df_index df)"
    and "nanpercentile (List.map_filter (\<lambda>v. v) vs) percentile = Inl e"
  shows "detect_cold_spells df var percentile min_duration = Inl e"
proof -
  from assms(1) have d: "var \<in> dom (df_columns df)" by auto
  from assms(2) have v: "map snd (dropna (zip (df_index df) vs)) = List.map_filter (\<lambda>v. v) vs"
    by (intro values_dropna_zip) simp
  from d assms(1,3) show ?thesis by (simp add: detect_cold_spells_def getitem_def v)
qed





lemma above_thresh_missing: "\<not> above_thresh None th"
  by (simp add: above_thresh_def)

lemma below_thresh_missing: "\<not> below_thresh None th"
  by (simp add: below_thresh_def)

lemma unmarked_outside_runs:
  assumes nm: "\<And>th. \<not> f None th"
    and run: "maximal_run (map (\<lambda>v. f v th) vs) (a, b)"
    and i: "a \<le> i" "i \<le> b"
  shows "vs ! i \<noteq> None"
proof
  assume n: "vs ! i = None"
  from run [unfolded maximal_run_iff] i have "i < length vs" "map (\<lambda>v. f v th) vs ! i" by auto
  with n nm [of th] show False by simp
qed

lemma long_runs_no_missing:
  assumes nm: "\<And>th. \<not> f None th"
    and r: "(a, b) \<in> set (filter (\<lambda>(a, b). md \<le> int b - int a + 1)
                         (consecutive_ranges (map (\<lambda>v. f v th) vs)))"
  shows "a \<le> b \<and> b < length vs \<and> (\<forall>i. a \<le> i \<and> i \<le> b \<longrightarrow> vs ! i \<noteq> None)"
proof -
  from r have m: "maximal_run (map (\<lambda>v. f v th) vs) (a, b)" by (auto intro: ranges_maximal)
  from m [unfolded maximal_run_iff] have "a \<le> b" "b < length vs" by simp_all
  with unmarked_outside_runs [of f th vs a b, OF nm m] show ?thesis by blast
qed

text \<open>
  Claim C10. In \<open>detect_heatwaves\<close> and \<open>detect_cold_spells\<close> a position whose value is
  missing is marked by neither comparison, whatever the threshold. So no candidate run
  (a maximal run of marked positions) holds a position with a missing value: a missing
  day between qualifying days ends one run and the next run starts after it. And every
  date range that either detector returns is the pair of index dates of positions
  \<open>a \<le> b\<close> such that no position from \<open>a\<close> to \<open>b\<close> has a missing value.
\<close>

theorem missing_values_split_runs:
  assumes c: "df_columns df var = Some vs"
    and len: "length vs = length (df_index df)"
  shows "(\<forall>th. \<not> above_thresh None th \<and> \<not> below_thresh None th)
     \<and> (\<forall>th a b i. (maximal_run (map (\<lambda>v. above_thresh v th) vs) (a, b)
                      \<or> maximal_run (map (\<lambda>v. below_thresh v th) vs) (a, b))
                    \<and> a \<le> i \<and> i \<le> b \<longrightarrow> vs ! i \<noteq> None)
     \<and> (\<forall>out. (detect_heatwaves df var percentile min_duration = Inr out
                \<or> detect_cold_spells df var percentile min_duration = Inr out) \<longrightarrow>
            (\<exists>rs. out = map (\<lambda>(a, b). (df_index df ! a, df_index df ! b)) rs
               \<and> (\<forall>(a, b)\<in>set rs. a \<le> b \<and> b < length vs
                     \<and> (\<forall>i. a \<le> i \<and> i \<le> b \<longrightarrow> vs ! i \<noteq> None))))"
proof (intro conjI allI impI)
  fix th
  show "\<not> above_thresh None th" by (rule above_thresh_missing)
  show "\<not> below_thresh None th" by (rule below_thresh_missing)
next
  fix th a b i
  assume h: "(maximal_run (map (\<lambda>v. above_thresh v th) vs) (a, b)
              \<or> maximal_run (map (\<lambda>v. below_thresh v th) vs) (a, b)) \<and> a \<le> i \<and> i \<le> b"
  then show "vs ! i \<noteq> None"
    using unmarked_outside_runs [of above_thresh th vs a b i, OF above_thresh_missing]
      unmarked_outside_runs [of below_thresh th vs a b i, OF below_thresh_missing]
    by blast
next
  fix out
  assume h: "detect_heatwaves df var percentile min_duration = Inr out
             \<or> detect_cold_spells df var percentile min_duration = Inr out"
  show "\<exists>rs. out = map (\<lambda>(a, b). (df_index df ! a, df_index df ! b)) rs
          \<and> (\<forall>(a, b)\<in>set rs. a \<le> b \<and> b < length vs
                \<and> (\<forall>i. a \<le> i \<and> i \<le> b \<longrightarrow> vs ! i \<noteq> None))"
  proof (cases "nanpercentile (List.map_filter (\<lambda>v. v) vs) percentile")
    case (Inl e)
    from detect_heatwaves_error [OF c len Inl] detect_cold_spells_error [OF c len Inl] h
    show ?thesis by simp
  next
    case (Inr th)
    let ?hot = "filter (\<lambda>(a, b). min_duration \<le> int b - int a + 1)
                  (consecutive_ranges (map (\<lambda>v. above_thresh v th) vs))"
    let ?cold = "filter (\<lambda>(a, b). min_duration \<le> int b - int a + 1)
                  (consecutive_ranges (map (\<lambda>v. below_thresh v th) vs))"
    have hot: "\<forall>(a, b)\<in>set ?hot. a \<le> b \<and> b < length vs
                \<and> (\<forall>i. a \<le> i \<and> i \<le> b \<longrightarrow> vs ! i \<noteq> None)"
      using long_runs_no_missing [of above_thresh _ _ min_duration th vs, OF above_thresh_missing]
      by blast
    have cold: "\<forall>(a, b)\<in>set ?cold. a \<le> b \<and> b < length vs
                \<and> (\<forall>i. a \<le> i \<and> i \<le> b \<longrightarrow> vs ! i \<noteq> None)"
      using long_runs_no_missing [of below_thresh _ _ min_duration th vs, OF below_thresh_missing]
      by blast
    from h show ?thesis
    proof
      assume "detect_heatwaves df var percentile min_duration = Inr out"
      with detect_heatwaves_result [OF c len Inr, of min_duration]
      have "out = map (\<lambda>(a, b). (df_index df ! a, df_index df ! b)) ?hot" by simp
      with hot show ?thesis by blast
    next
      assume "detect_cold_spells df var percentile min_duration = Inr out"
      with detect_cold_spells_result [OF c len Inr, of min_duration]
      have "out = map (\<lambda>(a, b). (df_index df ! a, df_index df ! b)) ?cold" by simp
      with cold show ?thesis by blast
    qed
  qed
qed

theorem missing_values_split_runs_witness:
  "detect_heatwaves
     \<lparr>df_index = [0, 1, 2, 3, 4, 5, 6],
      df_columns = [''TMAX'' \<mapsto> [Some 1, Some 9, Some 9, None, Some 9, Some 9, Some 1]]\<rparr> ''TMAX'' 20 2
   = Inr [(1, 2), (4, 5)]
   \<and> detect_cold_spells
     \<lparr>df_index = [0, 1, 2, 3, 4, 5, 6],
      df_columns = [''TMAX'' \<mapsto> [Some 1, Some 9, Some 9, None, Some 9, Some 9, Some 1]]\<rparr> ''TMAX'' 50 1
   = Inr [(0, 0), (6, 6)]
   \<and> (\<exists>rs. [(1, 2), (4, 5)]
          = map (\<lambda>(a, b).
              (df_index \<lparr>df_index = [0, 1, 2, 3, 4, 5, 6],
                 df_columns = [''TMAX'' \<mapsto> [Some 1, Some 9, Some 9, None, Some 9, Some 9, Some 1]]\<rparr> ! a,
               df_index \<lparr>df_index = [0, 1, 2, 3, 4, 5, 6],
                 df_columns = [''TMAX'' \<mapsto> [Some 1, Some 9, Some 9, None, Some 9, Some 9, Some 1]]\<rparr> ! b)) rs
        \<and> (\<forall>(a, b)\<in>set rs. a \<le> b \<and> b < length [Some 1, Some 9, Some 9, None, Some 9, Some 9, Some (1::rat)]
              \<and> (\<forall>i. a \<le> i \<and> i \<le> b \<longrightarrow>
                    [Some 1, Some 9, Some 9, None, Some 9, Some 9, Some (1::rat)] ! i \<noteq> None)))"
proof -
  let ?vs = "[Some 1, Some 9, Some 9, None, Some 9, Some 9, Some (1::rat)]"
  let ?df = "\<lparr>df_index = [0, 1, 2, 3, 4, 5, 6], df_columns = [''TMAX'' \<mapsto> ?vs]\<rparr>"
  have c: "df_columns ?df ''TMAX'' = Some ?vs" by simp
  have len: "length ?vs = length (df_index ?df)" by simp
  have e1: "detect_heatwaves ?df ''TMAX'' 20 2 = Inr [(1, 2), (4, 5)]" by code_simp
  have e2: "detect_cold_spells ?df ''TMAX'' 50 1 = Inr [(0, 0), (6, 6)]" by code_simp
  from missing_values_split_runs [OF c len, of 20 2]
  have "\<forall>out. (detect_heatwaves ?df ''TMAX'' 20 2 = Inr out
                \<or> detect_cold_spells ?df ''TMAX'' 20 2 = Inr out) \<longrightarrow>
            (\<exists>rs. out = map (\<lambda>(a, b). (df_index ?df ! a, df_index ?df ! b)) rs
               \<and> (\<forall>(a, b)\<in>set rs. a \<le> b \<and> b < length ?vs
                     \<and> (\<forall>i. a \<le> i \<and> i \<le> b \<longrightarrow> ?vs ! i \<noteq> None)))" by blast
  with e1 have "\<exists>rs. [(1, 2), (4, 5)] = map (\<lambda>(a, b). (df_index ?df ! a, df_index ?df ! b)) rs
               \<and> (\<forall>(a, b)\<in>set rs. a \<le> b \<and> b < length ?vs
                     \<and> (\<forall>i. a \<le> i \<and> i \<le> b \<longrightarrow> ?vs ! i \<noteq> None))" by blast
  with e1 e2 show ?thesis by blast
qed

section \<open>Droughts: seasonal totals against the percentile cutoff\<close>

lemma season_sum_fillna0:
  "season_sum (fillna0 col) s e
     = sum_list (map (\<lambda>(t, v). if s \<le> t \<and> t \<le> e then (case v of None \<Rightarrow> 0 | Some x \<Rightarrow> x) else 0) col)"
proof (induction col)
  case Nil
  then show ?case by (simp add: season_sum_def fillna0_def)
next
  case (Cons a col)
  obtain t v where a: "a = (t, v)" by (cases a)
  from Cons show ?case
    by (cases "s \<le> t \<and> t \<le> e") (auto simp: season_sum_def fillna0_def a)
qed

lemma index_years_empty: "index_years idx = [] \<longleftrightarrow> idx = []"
proof -
  have "set (index_years idx) = year_of ` set idx" by (simp add: index_years_def)
  then show ?thesis by (metis empty_set image_is_empty set_empty)
qed

lemma set_index_years: "set (index_years idx) = year_of ` set idx"
  by (simp add: index_years_def)

lemma index_years_ascending: "sorted (index_years idx) \<and> distinct (index_years idx)"
  by (simp add: index_years_def)

text \<open>
  Claim C4. For a well-formed frame with at least one row, a precipitation variable of
  the frame, season months within 1..12 and a percentile within 0..100,
  \<open>detect_droughts\<close> returns one row for every calendar year of the index, in ascending
  order (a year whose values are all missing has a row too). The total of a year is
  the sum over the days of its season window, both ends included, of the value of the
  day, a missing value counting as zero. The cutoff is the percentile of the totals of
  all years, and a year is marked as drought exactly when its total is at most the
  cutoff; a year whose total equals the cutoff is marked.
\<close>

theorem detect_droughts_inclusive_cutoff:
  assumes c: "df_columns df var = Some vs"
    and len: "length vs = length (df_index df)"
    and ne: "df_index df \<noteq> []"
    and months: "1 \<le> m0" "m0 \<le> 12" "1 \<le> m1" "m1 \<le> 12"
    and q: "0 \<le> percentile" "percentile \<le> 100"
  shows "\<exists>rows cut. detect_droughts df var (m0, m1) percentile = Inr rows
     \<and> map year rows = index_years (df_index df)
     \<and> set (map year rows) = year_of ` set (df_index df)
     \<and> nanpercentile (map precip rows) percentile = Inr (Some cut)
     \<and> (\<forall>r\<in>set rows.
          start r = days_from_civil (year r) m0 1
          \<and> end_day r = days_from_civil (year r) m1 (days_in_month (year r) m1)
          \<and> precip r = sum_list (map (\<lambda>(t, v). if start r \<le> t \<and> t \<le> end_day r
                                               then (case v of None \<Rightarrow> 0 | Some x \<Rightarrow> x) else 0)
                                   (zip (df_index df) vs))
          \<and> cutoff r = Some cut
          \<and> (is_drought r \<longleftrightarrow> precip r \<le> cut)
          \<and> (precip r = cut \<longrightarrow> is_drought r))"
proof -
  let ?col = "zip (df_index df) vs"
  let ?years = "index_years (df_index df)"
  let ?S = "\<lambda>y. days_from_civil y m0 1"
  let ?E = "\<lambda>y. days_from_civil y m1 (days_in_month y m1)"
  let ?T = "\<lambda>y. season_sum (fillna0 ?col) (?S y) (?E y)"
  let ?seasons = "map (\<lambda>y. (y, ?S y, ?E y, ?T y)) ?years"
  define cut where "cut = quantile_linear (sort (map ?T ?years)) (percentile / 100)"
  let ?rows = "map (\<lambda>y. \<lparr>year = y, start = ?S y, end_day = ?E y, precip = ?T y,
                         is_drought = (?T y \<le> cut), cutoff = Some cut\<rparr>) ?years"
  from c have d: "var \<in> dom (df_columns df)" by auto
  from ne have yne: "?years \<noteq> []" by (simp add: index_years_empty)
  have tot: "map (\<lambda>(y, s, e, p). p) ?seasons = map ?T ?years" by (simp add: o_def)
  have np: "nanpercentile (map ?T ?years) percentile = Inr (Some cut)"
    using q yne by (simp add: nanpercentile_def cut_def)
  have rows: "map (\<lambda>(y, s, e, p). \<lparr>year = y, start = s, end_day = e, precip = p,
                      is_drought = at_most p (Some cut), cutoff = Some cut\<rparr>) ?seasons = ?rows"
    by (simp add: o_def at_most_def)
  have res: "detect_droughts df var (m0, m1) percentile = Inr ?rows"
    using d c months yne
    by (simp add: detect_droughts_def getitem_def Let_def tot np rows del: map_map)
  have yrs: "map year ?rows = ?years" by (simp add: o_def)
  have prs: "map precip ?rows = map ?T ?years" by (simp add: o_def)
  have each: "\<forall>r\<in>set ?rows.
          start r = days_from_civil (year r) m0 1
          \<and> end_day r = days_from_civil (year r) m1 (days_in_month (year r) m1)
          \<and> precip r = sum_list (map (\<lambda>(t, v). if start r \<le> t \<and> t \<le> end_day r
                                               then (case v of None \<Rightarrow> 0 | Some x \<Rightarrow> x) else 0) ?col)
          \<and> cutoff r = Some cut
          \<and> (is_drought r \<longleftrightarrow> precip r \<le> cut)
          \<and> (precip r = cut \<longrightarrow> is_drought r)"
    by (auto simp: season_sum_fillna0)
  have "set (map year ?rows) = year_of ` set (df_index df)"
    unfolding yrs by (rule set_index_years)
  with res yrs np [folded prs] each show ?thesis by blast
qed

theorem detect_droughts_inclusive_cutoff_witness:
  "detect_droughts
     \<lparr>df_index = [10, 11, 400, 800], df_columns = [''PRCP'' \<mapsto> [Some 1, None, Some 5, Some 7]]\<rparr>
     ''PRCP'' (1, 12) 50
   = Inr [\<lparr>year = 1970, start = 0, end_day = 364, precip = 1, is_drought = True, cutoff = Some 5\<rparr>,
          \<lparr>year = 1971, start = 365, end_day = 729, precip = 5, is_drought = True, cutoff = Some 5\<rparr>,
          \<lparr>year = 1972, start = 730, end_day = 1095, precip = 7, is_drought = False, cutoff = Some 5\<rparr>]
   \<and> (\<exists>rows cut. detect_droughts
         \<lparr>df_index = [10, 11, 400, 800], df_columns = [''PRCP'' \<mapsto> [Some 1, None, Some 5, Some 7]]\<rparr>
         ''PRCP'' (1, 12) 50 = Inr rows
        \<and> nanpercentile (map precip rows) 50 = Inr (Some cut)
        \<and> list_all (\<lambda>r. is_drought r \<longleftrightarrow> precip r \<le> cut) rows)"
proof -
  let ?vs = "[Some 1, None, Some 5, Some (7::rat)]"
  let ?df = "\<lparr>df_index = [10, 11, 400, 800], df_columns = [''PRCP'' \<mapsto> ?vs]\<rparr>"
  have c: "df_columns ?df ''PRCP'' = Some ?vs" by simp
  have len: "length ?vs = length (df_index ?df)" by simp
  have ne: "df_index ?df \<noteq> []" by simp
  have months: "(1::int) \<le> 1" "(1::int) \<le> 12" "(1::int) \<le> 12" "(12::int) \<le> 12" by simp_all
  have q: "(0::rat) \<le> 50" "(50::rat) \<le> 100" by simp_all
  have e: "detect_droughts ?df ''PRCP'' (1, 12) 50
      = Inr [\<lparr>year = 1970, start = 0, end_day = 364, precip = 1, is_drought = True, cutoff = Some 5\<rparr>,
          \<lparr>year = 1971, start = 365, end_day = 729, precip = 5, is_drought = True, cutoff = Some 5\<rparr>,
          \<lparr>year = 1972, start = 730, end_day = 1095, precip = 7, is_drought = False, cutoff = Some 5\<rparr>]"
    by code_simp
  from detect_droughts_inclusive_cutoff [OF c len ne months(1,2,3,4) q]
  have "\<exists>rows cut. detect_droughts ?df ''PRCP'' (1, 12) 50 = Inr rows
        \<and> nanpercentile (map precip rows) 50 = Inr (Some cut)
        \<and> list_all (\<lambda>r. is_drought r \<longleftrightarrow> precip r \<le> cut) rows"
    unfolding list_all_iff by blast
  with e show ?thesis by (rule conjI)
qed

end
